theory Spec2Isabelle
  imports
    Complex_Main
    "HOL-Library.AList"
    "HOL-Library.Char_ord"
    "HOL-Library.List_Lexorder"
    "HOL-Library.Product_Lexorder"
    "HOL-Library.Multiset"
    "HOL-Library.Sublist"
begin

section \<open>Graph model\<close>

text \<open>
  The road network of \<^verbatim>\<open>finaldaaproject.py\<close> is a \<^verbatim>\<open>networkx.Graph\<close>: a dictionary
  from each node to a dictionary from each neighbour to the edge's attributes, of which
  the program only ever stores and reads \<^verbatim>\<open>"distance"\<close>. Python dictionaries keep their
  insertion order, so both levels are association lists; a key occurs once in each.
  Distances are the Python integers of the \<^verbatim>\<open>edges\<close> table. Charging prices and the
  battery capacity are Python floats; they are modelled as exact real numbers (rounding
  of binary floating point is not modelled).
\<close>

datatype error = KeyError

type_synonym 'v adjacency = "('v \<times> int) list"

type_synonym 'v graph = "('v \<times> 'v adjacency) list"

definition nodes :: "'v graph \<Rightarrow> 'v set" where
  "nodes g = fst ` set g"

text \<open>\<^verbatim>\<open>Graph.add_edge(u, v, distance=dist)\<close>: both end points become nodes when they
  are not yet, and the edge is stored in both adjacency dictionaries.\<close>

definition add_node :: "'v \<Rightarrow> 'v graph \<Rightarrow> 'v graph" where
  "add_node u g = (if u \<in> nodes g then g else g @ [(u, [])])"

definition add_edge :: "'v \<Rightarrow> 'v \<Rightarrow> int \<Rightarrow> 'v graph \<Rightarrow> 'v graph" where
  "add_edge u v d g =
     AList.map_entry v (AList.update u d)
       (AList.map_entry u (AList.update v d) (add_node v (add_node u g)))"

definition edges :: "(string \<times> string \<times> int) list" where
  "edges =
     [(''Mumbai'', ''Nashik'', 180),
      (''Mumbai'', ''Goa'', 580),
      (''Nashik'', ''Pune'', 300),
      (''Pune'', ''Satara'', 120),
      (''Satara'', ''Kolhapur'', 180),
      (''Kolhapur'', ''Goa'', 200),
      (''Goa'', ''Hyderabad'', 610),
      (''Hyderabad'', ''Kolhapur'', 300)]"

definition G :: "string graph" where
  "G = foldl (\<lambda>g (u, v, d). add_edge u v d g) [] edges"

definition charging_prices :: "(string \<times> real) list" where
  "charging_prices =
     [(''Mumbai'', 18 / 10),
      (''Nashik'', 15 / 10),
      (''Pune'', 12 / 10),
      (''Satara'', 15 / 10),
      (''Kolhapur'', 18 / 10),
      (''Goa'', 2),
      (''Hyderabad'', 22 / 10)]"

text \<open>\<^verbatim>\<open>graph[u][v]["distance"]\<close>; a missing key raises \<^verbatim>\<open>KeyError\<close>.\<close>

definition distance :: "'v graph \<Rightarrow> 'v \<Rightarrow> 'v \<Rightarrow> error + int" where
  "distance g u v =
     (case map_of g u of
        None \<Rightarrow> Inl KeyError
      | Some adj \<Rightarrow> (case map_of adj v of None \<Rightarrow> Inl KeyError | Some d \<Rightarrow> Inr d))"

section \<open>Shortest path\<close>

text \<open>
  The frontier \<^verbatim>\<open>pq\<close> holds tuples \<^verbatim>\<open>(cost, node, path)\<close>. \<^verbatim>\<open>heapq\<close> keeps them in a
  list arranged as a binary heap; \<^verbatim>\<open>heappop\<close> removes and returns the smallest tuple in
  Python's tuple order, which is lexicographic: the integer cost first, then the node
  name, then the path (a list, itself compared lexicographically). That order is total,
  so the tuple popped is the minimum of the frontier whatever the arrangement of the
  list; the frontier is modelled by the list of its tuples.
\<close>

type_synonym 'v entry = "int \<times> 'v \<times> 'v list"

definition heappush :: "'a list \<Rightarrow> 'a \<Rightarrow> 'a list" where
  "heappush pq x = pq @ [x]"

definition heappop :: "('a::linorder) list \<Rightarrow> 'a \<times> 'a list" where
  "heappop pq = (let m = Min (set pq) in (m, remove1 m pq))"

text \<open>The result's distance: an integer, or \<^verbatim>\<open>float("inf")\<close>.\<close>

datatype cost = Fin int | PosInf

text \<open>The loop over \<^verbatim>\<open>graph[node].items()\<close>.\<close>

fun push_neighbors ::
  "'v adjacency \<Rightarrow> 'v set \<Rightarrow> int \<Rightarrow> 'v list \<Rightarrow> 'v entry list \<Rightarrow> 'v entry list" where
  "push_neighbors [] visited cost path pq = pq"
| "push_neighbors ((neighbor, d) # items) visited cost path pq =
     push_neighbors items visited cost path
       (if neighbor \<notin> visited then heappush pq (cost + d, neighbor, path) else pq)"

text \<open>The \<^verbatim>\<open>while pq:\<close> loop. \<open>dest\<close> is the source's \<^verbatim>\<open>end\<close>.\<close>

function dijkstra_loop ::
  "('v::linorder) graph \<Rightarrow> 'v \<Rightarrow> 'v entry list \<Rightarrow> 'v set \<Rightarrow> error + (cost \<times> 'v list)" where
  "dijkstra_loop graph dest pq visited =
     (if pq = [] then Inr (PosInf, [])
      else
        let (item, pq1) = heappop pq; (cost, node, path) = item in
        if node \<in> visited then dijkstra_loop graph dest pq1 visited
        else
          let visited1 = insert node visited; path1 = path @ [node] in
          if node = dest then Inr (Fin cost, path1)
          else
            (case map_of graph node of
               None \<Rightarrow> Inl KeyError
             | Some items \<Rightarrow>
                 dijkstra_loop graph dest (push_neighbors items visited1 cost path1 pq1) visited1))"
  by pat_completeness auto

lemma heappop_length: "pq \<noteq> [] \<Longrightarrow> heappop pq = (x, pq1) \<Longrightarrow> length pq1 < length pq"
proof -
  assume ne: "pq \<noteq> []" and pop: "heappop pq = (x, pq1)"
  have "Min (set pq) \<in> set pq" using ne by (intro Min_in) simp_all
  then have "length (remove1 (Min (set pq)) pq) < length pq"
    by (simp add: length_remove1) (cases pq; simp)
  then show ?thesis using pop by (auto simp: heappop_def Let_def)
qed

termination dijkstra_loop
proof (relation "measures [\<lambda>(g, d, pq, vis). card (nodes g - vis), \<lambda>(g, d, pq, vis). length pq]",
    goal_cases)
  case 1
  show ?case by simp
next
  case (2 graph dest pq visited x item pq1 item' cost rest node path)
  then have "heappop pq = (item, pq1)" by simp
  with 2(1) have "length pq1 < length pq" by (rule heappop_length)
  then show ?case by simp
next
  case (3 graph dest pq visited x item pq1 item' cost rest node path visited1 path1 items)
  have "node \<in> nodes graph"
    using map_of_SomeD [OF 3(11)] by (auto simp: nodes_def intro: rev_image_eqI)
  moreover have "node \<notin> visited" by (rule 3(7))
  moreover have "finite (nodes graph - visited)" by (simp add: nodes_def)
  ultimately have "card (nodes graph - insert node visited) < card (nodes graph - visited)"
    by (intro psubset_card_mono) auto
  then show ?case using 3(8) by simp
qed

declare dijkstra_loop.simps [simp del]

definition dijkstra :: "('v::linorder) graph \<Rightarrow> 'v \<Rightarrow> 'v \<Rightarrow> error + (cost \<times> 'v list)" where
  "dijkstra graph start dest = dijkstra_loop graph dest [(0, start, [])] {}"

section \<open>Charging simulation\<close>

text \<open>
  A charging stop is appended to \<^verbatim>\<open>charging_plan\<close> as the formatted string
  \<^verbatim>\<open>f"{city}: {amount:.1f} units @ {price}/unit"\<close>. The string shows the city, the
  amount rounded to one decimal place, and the price in full; a stop of the model is
  these three values. \<^verbatim>\<open>:.1f\<close> rounds to the nearest multiple of one tenth, and a value
  half way between two of them to the one with the even last digit.
\<close>

definition format_1f :: "real \<Rightarrow> real" where
  "format_1f x =
     (let tenths = x * 10; n = \<lfloor>tenths\<rfloor>; rest = tenths - of_int n
      in of_int (if rest < 1 / 2 then n else if 1 / 2 < rest then n + 1
                 else if even n then n else n + 1) / 10)"

record 'v charging_stop =
  city :: 'v
  energy :: real
  price :: real

type_synonym 'v charge_state = "real \<times> real \<times> 'v charging_stop list"

text \<open>\<^verbatim>\<open>charging_prices[c]\<close>\<close>

definition price_of :: "('v \<rightharpoonup> real) \<Rightarrow> 'v \<Rightarrow> error + real" where
  "price_of prices c = (case prices c of None \<Rightarrow> Inl KeyError | Some p \<Rightarrow> Inr p)"

text \<open>
  The body of \<^verbatim>\<open>for i in range(len(path) - 1)\<close>, for \<open>a = path[i]\<close> and
  \<open>b = path[i + 1]\<close>, on the state (\<^verbatim>\<open>remaining_battery\<close>, \<^verbatim>\<open>total_cost\<close>,
  \<^verbatim>\<open>charging_plan\<close>).
\<close>

definition leg ::
  "'v graph \<Rightarrow> ('v \<rightharpoonup> real) \<Rightarrow> real \<Rightarrow> 'v \<Rightarrow> 'v \<Rightarrow> 'v charge_state \<Rightarrow> error + 'v charge_state" where
  "leg g prices battery_capacity a b st =
     (case st of (remaining_battery, total_cost, charging_plan) \<Rightarrow>
        (case distance g a b of
           Inl e \<Rightarrow> Inl e
         | Inr d \<Rightarrow>
             if real_of_int d > remaining_battery then
               (case price_of prices a of
                  Inl e \<Rightarrow> Inl e
                | Inr p \<Rightarrow>
                    Inr (battery_capacity - real_of_int d,
                         total_cost + (battery_capacity - remaining_battery) * p,
                         charging_plan @
                           [\<lparr>city = a, energy = format_1f (battery_capacity - remaining_battery),
                              price = p\<rparr>]))
             else Inr (remaining_battery - real_of_int d, total_cost, charging_plan)))"

fun legs ::
  "'v graph \<Rightarrow> ('v \<rightharpoonup> real) \<Rightarrow> real \<Rightarrow> 'v list \<Rightarrow> 'v charge_state \<Rightarrow> error + 'v charge_state" where
  "legs g prices battery_capacity (a # b # path) st =
     (case leg g prices battery_capacity a b st of
        Inl e \<Rightarrow> Inl e
      | Inr st' \<Rightarrow> legs g prices battery_capacity (b # path) st')"
| "legs g prices battery_capacity path st = Inr st"

text \<open>
  The result of \<^verbatim>\<open>calculate_path\<close>: \<open>NoRoute\<close> is the tuple of four \<^verbatim>\<open>None\<close>s (after the
  error dialog, which is not modelled), \<open>Route\<close> the tuple (\<^verbatim>\<open>path\<close>, \<^verbatim>\<open>total_distance\<close>,
  \<^verbatim>\<open>total_cost\<close>, \<^verbatim>\<open>charging_plan\<close>).
\<close>

datatype 'v route = NoRoute | Route "'v list" cost real "'v charging_stop list"

text \<open>
  The body of \<^verbatim>\<open>calculate_path\<close> from \<^verbatim>\<open>if not path:\<close> on, for the result \<open>r\<close> of its
  call of \<^verbatim>\<open>dijkstra\<close>; an exception raised by that call leaves the function.
\<close>

definition charging_simulation ::
  "'v graph \<Rightarrow> ('v \<rightharpoonup> real) \<Rightarrow> 'v \<Rightarrow> real \<Rightarrow> error + (cost \<times> 'v list) \<Rightarrow> error + 'v route" where
  "charging_simulation g prices dest battery_capacity r =
     (case r of
        Inl e \<Rightarrow> Inl e
      | Inr (total_distance, path) \<Rightarrow>
          if path = [] then Inr NoRoute
          else
            (case legs g prices battery_capacity path (battery_capacity, 0, []) of
               Inl e \<Rightarrow> Inl e
             | Inr (remaining_battery, total_cost, charging_plan) \<Rightarrow>
                 if remaining_battery < 0 then
                   (case price_of prices dest of
                      Inl e \<Rightarrow> Inl e
                    | Inr p \<Rightarrow>
                        Inr (Route path total_distance
                               (total_cost + \<bar>remaining_battery\<bar> * p)
                               (charging_plan @
                                  [\<lparr>city = dest, energy = format_1f \<bar>remaining_battery\<bar>,
                                     price = p\<rparr>])))
                 else Inr (Route path total_distance total_cost charging_plan)))"

text \<open>
  \<^verbatim>\<open>calculate_path(start, end, battery_capacity)\<close>. The globals \<^verbatim>\<open>G\<close> and
  \<^verbatim>\<open>charging_prices\<close>, which the function only reads, are its first two arguments.
\<close>

definition calculate_path ::
  "('v::linorder) graph \<Rightarrow> ('v \<rightharpoonup> real) \<Rightarrow> 'v \<Rightarrow> 'v \<Rightarrow> real \<Rightarrow> error + 'v route" where
  "calculate_path g prices start dest battery_capacity =
     charging_simulation g prices dest battery_capacity (dijkstra g start dest)"

section \<open>Runs of the program\<close>

text \<open>
  An invocation as the interpreter runs it need not arrange the heap's list as the
  functions above do. The relations below describe every run that \<^verbatim>\<open>heapq\<close>'s contract
  allows: \<^verbatim>\<open>heappop\<close> removes a tuple that is not greater than any tuple of the heap and
  leaves the others in any arrangement, and after the pushes for the neighbours the heap
  holds the old tuples and the pushed ones in any arrangement.
\<close>

definition heap_pops :: "('a::linorder) list \<Rightarrow> 'a \<Rightarrow> 'a list \<Rightarrow> bool" where
  "heap_pops pq x pq1 \<longleftrightarrow> mset pq = add_mset x (mset pq1) \<and> (\<forall>y \<in> set pq. x \<le> y)"

inductive dijkstra_run ::
  "('v::linorder) graph \<Rightarrow> 'v \<Rightarrow> 'v entry list \<Rightarrow> 'v set \<Rightarrow> error + (cost \<times> 'v list) \<Rightarrow> bool"
  for graph dest where
  exhausted: "dijkstra_run graph dest [] visited (Inr (PosInf, []))"
| skip:
    "heap_pops pq (cost, node, path) pq1 \<Longrightarrow> node \<in> visited \<Longrightarrow>
     dijkstra_run graph dest pq1 visited r \<Longrightarrow>
     dijkstra_run graph dest pq visited r"
| found:
    "heap_pops pq (cost, dest, path) pq1 \<Longrightarrow> dest \<notin> visited \<Longrightarrow>
     dijkstra_run graph dest pq visited (Inr (Fin cost, path @ [dest]))"
| key_error:
    "heap_pops pq (cost, node, path) pq1 \<Longrightarrow> node \<notin> visited \<Longrightarrow> node \<noteq> dest \<Longrightarrow>
     map_of graph node = None \<Longrightarrow>
     dijkstra_run graph dest pq visited (Inl KeyError)"
| expand:
    "heap_pops pq (cost, node, path) pq1 \<Longrightarrow> node \<notin> visited \<Longrightarrow> node \<noteq> dest \<Longrightarrow>
     map_of graph node = Some items \<Longrightarrow>
     mset pq2 = mset (push_neighbors items (insert node visited) cost (path @ [node]) pq1) \<Longrightarrow>
     dijkstra_run graph dest pq2 (insert node visited) r \<Longrightarrow>
     dijkstra_run graph dest pq visited r"

definition calculate_path_run ::
  "('v::linorder) graph \<Rightarrow> ('v \<rightharpoonup> real) \<Rightarrow> 'v \<Rightarrow> 'v \<Rightarrow> real \<Rightarrow> error + 'v route \<Rightarrow> bool" where
  "calculate_path_run g prices start dest battery_capacity out \<longleftrightarrow>
     (\<exists>r. dijkstra_run g dest [(0, start, [])] {} r \<and>
          out = charging_simulation g prices dest battery_capacity r)"

section \<open>Paths of the graph\<close>

text \<open>
  A path is a non-empty sequence of nodes of the graph in which every consecutive pair
  is joined by an edge; its length is the sum of the distances of those edges.
\<close>

fun is_path :: "'v graph \<Rightarrow> 'v list \<Rightarrow> bool" where
  "is_path g [] = False"
| "is_path g [v] = (v \<in> nodes g)"
| "is_path g (u # v # p) =
     (case distance g u v of Inl e \<Rightarrow> False | Inr d \<Rightarrow> is_path g (v # p))"

definition edge_distance :: "'v graph \<Rightarrow> 'v \<Rightarrow> 'v \<Rightarrow> int" where
  "edge_distance g u v = (case distance g u v of Inl e \<Rightarrow> 0 | Inr d \<Rightarrow> d)"

fun path_length :: "'v graph \<Rightarrow> 'v list \<Rightarrow> int" where
  "path_length g (u # v # p) = edge_distance g u v + path_length g (v # p)"
| "path_length g p = 0"

definition path_from_to :: "'v graph \<Rightarrow> 'v \<Rightarrow> 'v \<Rightarrow> 'v list \<Rightarrow> bool" where
  "path_from_to g s t p \<longleftrightarrow> is_path g p \<and> hd p = s \<and> last p = t"

definition connected_in :: "'v graph \<Rightarrow> 'v \<Rightarrow> 'v \<Rightarrow> bool" where
  "connected_in g s t \<longleftrightarrow> (\<exists>p. path_from_to g s t p)"

text \<open>
  What every \<^verbatim>\<open>networkx\<close> graph with non-negative distances satisfies: a key occurs
  once in a dictionary, and every neighbour is a node of the graph.
\<close>

definition wf_graph :: "'v graph \<Rightarrow> bool" where
  "wf_graph g \<longleftrightarrow>
     distinct (map fst g) \<and>
     (\<forall>(u, adj) \<in> set g.
        distinct (map fst adj) \<and> (\<forall>(v, d) \<in> set adj. v \<in> nodes g \<and> 0 \<le> d))"

section \<open>Facts about graphs, paths and the frontier\<close>

lemma distance_Inr_iff:
  "distance g u v = Inr d \<longleftrightarrow> (\<exists>adj. map_of g u = Some adj \<and> map_of adj v = Some d)"
  by (auto simp: distance_def split: option.splits)

lemma wf_graph_adj:
  assumes "wf_graph g" "map_of g u = Some adj"
  shows "distinct (map fst adj)" "\<And>v d. (v, d) \<in> set adj \<Longrightarrow> v \<in> nodes g \<and> 0 \<le> d"
proof -
  have "(u, adj) \<in> set g" using assms(2) by (rule map_of_SomeD)
  then show "distinct (map fst adj)" "\<And>v d. (v, d) \<in> set adj \<Longrightarrow> v \<in> nodes g \<and> 0 \<le> d"
    using assms(1) unfolding wf_graph_def by fastforce+
qed

lemma map_of_nodes: "map_of g u = Some adj \<Longrightarrow> u \<in> nodes g"
  by (auto simp: nodes_def dest!: map_of_SomeD intro: rev_image_eqI)

lemma nodes_map_of: "u \<in> nodes g \<Longrightarrow> \<exists>adj. map_of g u = Some adj"
  unfolding nodes_def by (metis domD dom_map_of_conv_image_fst)

lemma distance_wf:
  assumes "wf_graph g" "distance g u v = Inr d"
  shows "u \<in> nodes g" "v \<in> nodes g" "0 \<le> d"
proof -
  from assms(2) obtain adj where adj: "map_of g u = Some adj" "map_of adj v = Some d"
    unfolding distance_Inr_iff by blast
  show "u \<in> nodes g" using adj(1) by (rule map_of_nodes)
  have "(v, d) \<in> set adj" using adj(2) by (rule map_of_SomeD)
  then show "v \<in> nodes g" "0 \<le> d" using wf_graph_adj(2) [OF assms(1) adj(1)] by blast+
qed

lemma items_distance:
  assumes "wf_graph g" "map_of g u = Some adj"
  shows "(v, d) \<in> set adj \<longleftrightarrow> distance g u v = Inr d"
  using wf_graph_adj(1) [OF assms] assms(2)
  by (auto simp: distance_Inr_iff dest: map_of_SomeD)

lemma distance_nodes: "distance g u v = Inr d \<Longrightarrow> u \<in> nodes g"
  by (auto simp: distance_Inr_iff dest: map_of_nodes)

lemma is_path_snoc:
  "is_path g (p @ [v]) \<longleftrightarrow>
     (if p = [] then v \<in> nodes g
      else is_path g p \<and> v \<in> nodes g \<and> (\<exists>d. distance g (last p) v = Inr d))"
  by (induction g p rule: is_path.induct) (auto split: sum.splits dest: distance_nodes)

lemma edge_distance_Inr [simp]: "distance g u v = Inr d \<Longrightarrow> edge_distance g u v = d"
  by (simp add: edge_distance_def)

lemma path_length_snoc:
  "p \<noteq> [] \<Longrightarrow> path_length g (p @ [v]) = path_length g p + edge_distance g (last p) v"
  by (induction g p rule: path_length.induct) auto

lemma is_path_nodes: "wf_graph g \<Longrightarrow> is_path g p \<Longrightarrow> set p \<subseteq> nodes g"
  by (induction g p rule: is_path.induct) (auto split: sum.splits dest: distance_wf)

lemma path_length_nonneg: "wf_graph g \<Longrightarrow> is_path g p \<Longrightarrow> 0 \<le> path_length g p"
  by (induction g p rule: is_path.induct) (auto split: sum.splits dest: distance_wf)

lemma set_push_neighbors:
  "set (push_neighbors items visited c p pq) =
     set pq \<union> {(c + d, n, p) | n d. (n, d) \<in> set items \<and> n \<notin> visited}"
  by (induction items arbitrary: pq) (auto simp: heappush_def split: if_splits)

lemma heappop_min:
  assumes "pq \<noteq> []" "heappop pq = (x, pq1)"
  shows "x \<in> set pq" "\<And>y. y \<in> set pq \<Longrightarrow> x \<le> y" "set pq1 \<subseteq> set pq" "set pq - {x} \<subseteq> set pq1"
    "mset pq = add_mset x (mset pq1)"
proof -
  have x: "x = Min (set pq)" and pq1: "pq1 = remove1 x pq"
    using assms(2) by (auto simp: heappop_def Let_def)
  show "x \<in> set pq" unfolding x using assms(1) by (intro Min_in) simp_all
  then show "mset pq = add_mset x (mset pq1)" unfolding pq1 by simp
  show "\<And>y. y \<in> set pq \<Longrightarrow> x \<le> y" unfolding x by simp
  show "set pq1 \<subseteq> set pq" unfolding pq1 by (rule set_remove1_subset)
  show "set pq - {x} \<subseteq> set pq1" unfolding pq1
    by (metis Diff_subset_conv insert_is_Un set_remove1_subset subsetI in_set_remove1 DiffD1 DiffD2 singletonI)
qed

section \<open>The invariant of the search\<close>

text \<open>
  For the search from \<open>s\<close> to \<open>t\<close>, with frontier \<open>pq\<close> and visited set \<open>vis\<close>:
  every frontier tuple \<open>(c, n, p)\<close> carries a path \<open>p @ [n]\<close> from \<open>s\<close> of length \<open>c\<close>
  whose earlier nodes are visited and distinct; \<open>t\<close> is not visited; the start is visited
  or still on the frontier; and every visited node \<open>v\<close> has a lower bound \<open>d\<close> on the
  length of all paths from \<open>s\<close> to it such that each unvisited neighbour \<open>u\<close> of \<open>v\<close>
  is on the frontier at a cost of at most \<open>d\<close> plus the distance from \<open>v\<close> to \<open>u\<close>.
\<close>

definition entry_ok :: "'v graph \<Rightarrow> 'v \<Rightarrow> 'v set \<Rightarrow> 'v entry \<Rightarrow> bool" where
  "entry_ok g s vis x \<longleftrightarrow>
     (case x of (c, n, p) \<Rightarrow>
        path_from_to g s n (p @ [n]) \<and> path_length g (p @ [n]) = c \<and>
        set p \<subseteq> vis \<and> distinct p)"

definition settled :: "'v graph \<Rightarrow> 'v \<Rightarrow> 'v entry list \<Rightarrow> 'v set \<Rightarrow> 'v \<Rightarrow> bool" where
  "settled g s pq vis v \<longleftrightarrow>
     (\<exists>d. (\<forall>W. path_from_to g s v W \<longrightarrow> d \<le> path_length g W) \<and>
          (\<forall>u w. distance g v u = Inr w \<longrightarrow> u \<notin> vis \<longrightarrow>
             (\<exists>c p. (c, u, p) \<in> set pq \<and> c \<le> d + w)))"

definition dijkstra_inv :: "'v graph \<Rightarrow> 'v \<Rightarrow> 'v \<Rightarrow> 'v entry list \<Rightarrow> 'v set \<Rightarrow> bool" where
  "dijkstra_inv g s t pq vis \<longleftrightarrow>
     (\<forall>x \<in> set pq. entry_ok g s vis x) \<and>
     t \<notin> vis \<and>
     (s \<in> vis \<or> (0, s, []) \<in> set pq) \<and>
     (\<forall>v \<in> vis. settled g s pq vis v)"

lemma frontier_bound:
  assumes wf: "wf_graph g" and inv: "dijkstra_inv g s t pq vis"
  shows "is_path g W \<Longrightarrow> hd W = s \<Longrightarrow> last W \<notin> vis \<Longrightarrow>
    \<exists>c n p. (c, n, p) \<in> set pq \<and> c \<le> path_length g W"
proof (induction W rule: rev_induct)
  case Nil
  then show ?case by simp
next
  case (snoc x W)
  show ?case
  proof (cases "W = []")
    case True
    with snoc.prems have "x = s" "s \<notin> vis" by simp_all
    with inv have "(0, s, []) \<in> set pq" by (auto simp: dijkstra_inv_def)
    then show ?thesis using True by force
  next
    case False
    from snoc.prems(1) False obtain w where
      W: "is_path g W" and w: "distance g (last W) x = Inr w"
      by (auto simp: is_path_snoc)
    have hd: "hd W = s" using snoc.prems(2) False by simp
    have len: "path_length g (W @ [x]) = path_length g W + w"
      using False w by (simp add: path_length_snoc)
    have w0: "0 \<le> w" using distance_wf(3) [OF wf w] .
    have x: "x \<notin> vis" using snoc.prems(3) by simp
    show ?thesis
    proof (cases "last W \<in> vis")
      case True
      with inv have "settled g s pq vis (last W)" by (auto simp: dijkstra_inv_def)
      then obtain d where d: "\<forall>W'. path_from_to g s (last W) W' \<longrightarrow> d \<le> path_length g W'"
        and fr: "\<forall>u w. distance g (last W) u = Inr w \<longrightarrow> u \<notin> vis \<longrightarrow>
             (\<exists>c p. (c, u, p) \<in> set pq \<and> c \<le> d + w)"
        unfolding settled_def by blast
      have "d \<le> path_length g W" using d W hd by (simp add: path_from_to_def)
      moreover obtain c p where "(c, x, p) \<in> set pq" "c \<le> d + w" using fr w x by blast
      ultimately show ?thesis using len by force
    next
      case False
      from snoc.IH [OF W hd False] obtain c n p where
        "(c, n, p) \<in> set pq" "c \<le> path_length g W" by blast
      then show ?thesis using len w0 by force
    qed
  qed
qed

lemma popped_least:
  assumes wf: "wf_graph g" and inv: "dijkstra_inv g s t pq vis"
    and ne: "pq \<noteq> []" and pop: "heappop pq = ((c, n, p), pq1)" and n: "n \<notin> vis"
    and W: "path_from_to g s n W"
  shows "c \<le> path_length g W"
proof -
  from W have "is_path g W" "hd W = s" "last W \<notin> vis" using n by (simp_all add: path_from_to_def)
  from frontier_bound [OF wf inv this] obtain c' n' p' where
    in_pq: "(c', n', p') \<in> set pq" and le: "c' \<le> path_length g W" by blast
  have "(c, n, p) \<le> (c', n', p')" using heappop_min(2) [OF ne pop in_pq] .
  then have "c \<le> c'" by (auto simp: less_eq_prod_def)
  with le show ?thesis by simp
qed

lemma inv_init: "s \<in> nodes g \<Longrightarrow> dijkstra_inv g s t [(0, s, [])] {}"
  by (simp add: dijkstra_inv_def entry_ok_def path_from_to_def)

lemma inv_skip:
  assumes inv: "dijkstra_inv g s t pq vis"
    and ne: "pq \<noteq> []" and pop: "heappop pq = ((c, n, p), pq1)" and n: "n \<in> vis"
  shows "dijkstra_inv g s t pq1 vis"
proof -
  note hp = heappop_min [OF ne pop]
  have keep: "\<And>c' u p'. (c', u, p') \<in> set pq \<Longrightarrow> u \<notin> vis \<Longrightarrow> (c', u, p') \<in> set pq1"
    using hp(4) n by auto
  have "\<forall>x \<in> set pq1. entry_ok g s vis x" using inv hp(3) by (auto simp: dijkstra_inv_def)
  moreover have "t \<notin> vis" using inv by (simp add: dijkstra_inv_def)
  moreover have "s \<in> vis \<or> (0, s, []) \<in> set pq1"
    using inv keep by (auto simp: dijkstra_inv_def)
  moreover have "settled g s pq1 vis v" if "v \<in> vis" for v
  proof -
    from inv that have "settled g s pq vis v" by (simp add: dijkstra_inv_def)
    then show ?thesis unfolding settled_def using keep by meson
  qed
  ultimately show ?thesis by (simp add: dijkstra_inv_def)
qed

lemma inv_expand:
  assumes wf: "wf_graph g" and inv: "dijkstra_inv g s t pq vis"
    and ne: "pq \<noteq> []" and pop: "heappop pq = ((c, n, p), pq1)" and n: "n \<notin> vis"
    and nt: "n \<noteq> t" and items: "map_of g n = Some items"
  shows "dijkstra_inv g s t (push_neighbors items (insert n vis) c (p @ [n]) pq1) (insert n vis)"
proof -
  let ?vis = "insert n vis"
  let ?pq = "push_neighbors items ?vis c (p @ [n]) pq1"
  note hp = heappop_min [OF ne pop]
  have set_pq: "set ?pq = set pq1 \<union> {(c + d, u, p @ [n]) | u d. (u, d) \<in> set items \<and> u \<notin> ?vis}"
    by (rule set_push_neighbors)
  have keep: "\<And>c' u p'. (c', u, p') \<in> set pq \<Longrightarrow> u \<noteq> n \<Longrightarrow> (c', u, p') \<in> set ?pq"
    using hp(4) unfolding set_pq by auto
  have ok: "entry_ok g s vis (c, n, p)" using inv hp(1) by (auto simp: dijkstra_inv_def)
  then have path: "path_from_to g s n (p @ [n])" and len: "path_length g (p @ [n]) = c"
    and sub: "set p \<subseteq> vis" and dist: "distinct p"
    by (simp_all add: entry_ok_def)
  have "entry_ok g s ?vis x" if "x \<in> set ?pq" for x
  proof (cases "x \<in> set pq1")
    case True
    then have "entry_ok g s vis x" using inv hp(3) by (auto simp: dijkstra_inv_def)
    then show ?thesis by (auto simp: entry_ok_def)
  next
    case False
    with that obtain u d where x: "x = (c + d, u, p @ [n])" and ud: "(u, d) \<in> set items"
      unfolding set_pq by blast
    have d: "distance g n u = Inr d" using items_distance [OF wf items] ud by simp
    have u: "u \<in> nodes g" using distance_wf(2) [OF wf d] .
    have "is_path g ((p @ [n]) @ [u])"
      unfolding is_path_snoc [of g "p @ [n]" u] using path d u by (simp add: path_from_to_def)
    moreover have "path_length g ((p @ [n]) @ [u]) = c + d"
      using path_length_snoc [of "p @ [n]" g u] len d by simp
    moreover have "hd ((p @ [n]) @ [u]) = s"
      using path by (cases p) (simp_all add: path_from_to_def)
    ultimately show ?thesis
      unfolding x entry_ok_def using sub dist n by (auto simp: path_from_to_def)
  qed
  moreover have "t \<notin> ?vis" using inv nt by (auto simp: dijkstra_inv_def)
  moreover have "s \<in> ?vis \<or> (0, s, []) \<in> set ?pq"
    using inv keep [of 0 s "[]"] by (auto simp: dijkstra_inv_def)
  moreover have "settled g s ?pq ?vis v" if "v \<in> ?vis" for v
  proof (cases "v = n")
    case True
    have "\<forall>W. path_from_to g s n W \<longrightarrow> c \<le> path_length g W"
      using popped_least [OF wf inv ne pop n] by blast
    moreover have "\<exists>c' p'. (c', u, p') \<in> set ?pq \<and> c' \<le> c + w"
      if "distance g n u = Inr w" "u \<notin> ?vis" for u w
    proof -
      have "(u, w) \<in> set items" using items_distance [OF wf items] that(1) by simp
      then have "(c + w, u, p @ [n]) \<in> set ?pq" unfolding set_pq using that(2) by blast
      then show ?thesis by force
    qed
    ultimately show ?thesis unfolding settled_def True by blast
  next
    case False
    with that inv have "settled g s pq vis v" by (simp add: dijkstra_inv_def)
    then obtain d where d: "\<forall>W. path_from_to g s v W \<longrightarrow> d \<le> path_length g W"
      and fr: "\<forall>u w. distance g v u = Inr w \<longrightarrow> u \<notin> vis \<longrightarrow>
             (\<exists>c p. (c, u, p) \<in> set pq \<and> c \<le> d + w)"
      unfolding settled_def by blast
    have "\<exists>c' p'. (c', u, p') \<in> set ?pq \<and> c' \<le> d + w"
      if "distance g v u = Inr w" "u \<notin> ?vis" for u w
    proof -
      have "u \<notin> vis" using that(2) by simp
      with fr that(1) obtain c' p' where "(c', u, p') \<in> set pq" "c' \<le> d + w" by blast
      then show ?thesis using keep [of c' u p'] that(2) by auto
    qed
    with d show ?thesis unfolding settled_def by blast
  qed
  ultimately show ?thesis unfolding dijkstra_inv_def by blast
qed

text \<open>What the search returns.\<close>

definition dijkstra_post :: "'v graph \<Rightarrow> 'v \<Rightarrow> 'v \<Rightarrow> error + (cost \<times> 'v list) \<Rightarrow> bool" where
  "dijkstra_post g s t r \<longleftrightarrow>
     (case r of
        Inl e \<Rightarrow> False
      | Inr (PosInf, p) \<Rightarrow> p = [] \<and> \<not> connected_in g s t
      | Inr (Fin c, p) \<Rightarrow>
          path_from_to g s t p \<and> path_length g p = c \<and> distinct p \<and>
          (\<forall>W. path_from_to g s t W \<longrightarrow> c \<le> path_length g W))"

lemma inv_found:
  assumes wf: "wf_graph g" and inv: "dijkstra_inv g s t pq vis"
    and ne: "pq \<noteq> []" and pop: "heappop pq = ((c, t, p), pq1)" and n: "t \<notin> vis"
  shows "dijkstra_post g s t (Inr (Fin c, p @ [t]))"
proof -
  have "entry_ok g s vis (c, t, p)"
    using inv heappop_min(1) [OF ne pop] by (auto simp: dijkstra_inv_def)
  moreover have "\<forall>W. path_from_to g s t W \<longrightarrow> c \<le> path_length g W"
    using popped_least [OF wf inv ne pop n] by blast
  ultimately show ?thesis using n by (auto simp: dijkstra_post_def entry_ok_def)
qed

lemma inv_empty:
  assumes wf: "wf_graph g" and inv: "dijkstra_inv g s t [] vis"
  shows "\<not> connected_in g s t"
proof
  assume "connected_in g s t"
  then obtain W where "is_path g W" "hd W = s" "last W = t"
    by (auto simp: connected_in_def path_from_to_def)
  moreover have "t \<notin> vis" using inv by (simp add: dijkstra_inv_def)
  ultimately show False using frontier_bound [OF wf inv, of W] by simp
qed

lemma inv_node:
  assumes wf: "wf_graph g" and inv: "dijkstra_inv g s t pq vis"
    and ne: "pq \<noteq> []" and pop: "heappop pq = ((c, n, p), pq1)"
  shows "\<exists>items. map_of g n = Some items"
proof -
  have "entry_ok g s vis (c, n, p)"
    using inv heappop_min(1) [OF ne pop] by (auto simp: dijkstra_inv_def)
  then have "is_path g (p @ [n])" by (simp add: entry_ok_def path_from_to_def)
  then have "n \<in> nodes g" using is_path_nodes [OF wf] by fastforce
  then show ?thesis by (rule nodes_map_of)
qed

lemma dijkstra_loop_correct:
  "wf_graph g \<Longrightarrow> dijkstra_inv g s t pq vis \<Longrightarrow> dijkstra_post g s t (dijkstra_loop g t pq vis)"
proof (induction g t pq vis rule: dijkstra_loop.induct)
  case (1 g t pq vis)
  show ?case
  proof (cases "pq = []")
    case True
    then show ?thesis
      using inv_empty [OF "1.prems"(1)] "1.prems"(2)
      by (simp add: dijkstra_loop.simps dijkstra_post_def)
  next
    case ne: False
    obtain c n p pq1 where pop: "heappop pq = ((c, n, p), pq1)"
      by (metis prod.exhaust)
    show ?thesis
    proof (cases "n \<in> vis")
      case True
      have "dijkstra_post g s t (dijkstra_loop g t pq1 vis)"
        using "1.IH"(1) [OF ne pop [symmetric] refl refl refl refl True "1.prems"(1)]
          inv_skip [OF "1.prems"(2) ne pop True] by blast
      then show ?thesis using ne pop True by (simp add: dijkstra_loop.simps [of g t pq])
    next
      case nv: False
      show ?thesis
      proof (cases "n = t")
        case True
        then show ?thesis
          using inv_found [OF "1.prems" ne pop [unfolded True]] nv ne pop
          by (simp add: dijkstra_loop.simps [of g t pq])
      next
        case nt: False
        obtain items where items: "map_of g n = Some items"
          using inv_node [OF "1.prems" ne pop] by blast
        have "dijkstra_post g s t
          (dijkstra_loop g t (push_neighbors items (insert n vis) c (p @ [n]) pq1) (insert n vis))"
          using "1.IH"(2) [OF ne pop [symmetric] refl refl refl refl nv refl refl nt items "1.prems"(1)]
            inv_expand [OF "1.prems" ne pop nv nt items] by blast
        then show ?thesis
          using ne pop nv nt items by (simp add: dijkstra_loop.simps [of g t pq] Let_def)
      qed
    qed
  qed
qed

lemma dijkstra_correct:
  "wf_graph g \<Longrightarrow> s \<in> nodes g \<Longrightarrow> dijkstra_post g s t (dijkstra g s t)"
  unfolding dijkstra_def by (intro dijkstra_loop_correct inv_init)

lemma connected_start: "wf_graph g \<Longrightarrow> connected_in g s t \<Longrightarrow> s \<in> nodes g"
proof -
  assume wf: "wf_graph g" and "connected_in g s t"
  then obtain p where p: "is_path g p" "hd p = s" by (auto simp: connected_in_def path_from_to_def)
  then have "p \<noteq> []" by auto
  then have "hd p \<in> set p" by simp
  then show ?thesis using is_path_nodes [OF wf p(1)] p(2) by auto
qed

lemma dijkstra_connected:
  assumes "wf_graph g" "connected_in g s t"
  obtains c p where "dijkstra g s t = Inr (Fin c, p)" "path_from_to g s t p"
    "path_length g p = c" "distinct p" "\<forall>W. path_from_to g s t W \<longrightarrow> c \<le> path_length g W"
proof -
  have "dijkstra_post g s t (dijkstra g s t)"
    using dijkstra_correct [OF assms(1) connected_start [OF assms]] .
  then show ?thesis
  proof (cases "dijkstra g s t")
    case (Inl e)
    then show ?thesis using \<open>dijkstra_post g s t (dijkstra g s t)\<close>
      by (simp add: dijkstra_post_def)
  next
    case (Inr r)
    obtain c p where r: "r = (c, p)" by (cases r)
    show ?thesis
    proof (cases c)
      case (Fin n)
      then show ?thesis
        using \<open>dijkstra_post g s t (dijkstra g s t)\<close> Inr r that [of n p]
        by (simp add: dijkstra_post_def)
    next
      case PosInf
      then show ?thesis
        using \<open>dijkstra_post g s t (dijkstra g s t)\<close> Inr r assms(2)
        by (simp add: dijkstra_post_def)
    qed
  qed
qed

section \<open>Facts about the charging simulation\<close>

lemma dijkstra_loop_shape:
  "dijkstra_loop g t pq vis = Inr (c, p) \<Longrightarrow>
     (c = PosInf \<and> p = []) \<or> (\<exists>n. c = Fin n \<and> p \<noteq> [] \<and> last p = t)"
proof (induction g t pq vis rule: dijkstra_loop.induct)
  case (1 g t pq vis)
  show ?case
  proof (cases "pq = []")
    case True
    with "1.prems" show ?thesis by (simp add: dijkstra_loop.simps)
  next
    case ne: False
    obtain c' n p' pq1 where pop: "heappop pq = ((c', n, p'), pq1)"
      by (metis prod.exhaust)
    show ?thesis
    proof (cases "n \<in> vis")
      case True
      then have "dijkstra_loop g t pq1 vis = Inr (c, p)"
        using "1.prems" ne pop by (simp add: dijkstra_loop.simps [of g t pq])
      then show ?thesis
        using "1.IH"(1) [OF ne pop [symmetric] refl refl refl refl True] by blast
    next
      case nv: False
      show ?thesis
      proof (cases "n = t")
        case True
        then show ?thesis
          using "1.prems" ne pop nv by (auto simp: dijkstra_loop.simps [of g t pq])
      next
        case nt: False
        from "1.prems" ne pop nv nt obtain items where items: "map_of g n = Some items"
          by (auto simp: dijkstra_loop.simps [of g t pq] Let_def split: option.splits)
        then have "dijkstra_loop g t (push_neighbors items (insert n vis) c' (p' @ [n]) pq1)
            (insert n vis) = Inr (c, p)"
          using "1.prems" ne pop nv nt by (simp add: dijkstra_loop.simps [of g t pq] Let_def)
        then show ?thesis
          using "1.IH"(2) [OF ne pop [symmetric] refl refl refl refl nv refl refl nt items]
          by blast
      qed
    qed
  qed
qed



lemma price_of_Inr: "price_of prices c = Inr p \<longleftrightarrow> prices c = Some p"
  by (simp add: price_of_def split: option.splits)

lemma format_1f_whole: "x \<in> \<int> \<Longrightarrow> format_1f x = x"
proof -
  assume "x \<in> \<int>"
  then obtain k :: int where x: "x = of_int k" by (auto elim: Ints_cases)
  have "x * 10 = of_int (k * 10)" by (simp add: x)
  then have "\<lfloor>x * 10\<rfloor> = k * 10" by (metis floor_of_int)
  then show ?thesis by (simp add: format_1f_def Let_def x)
qed

lemma format_1f_nonneg: "0 \<le> x \<Longrightarrow> 0 \<le> format_1f x"
proof -
  assume "0 \<le> x"
  then have "0 \<le> \<lfloor>x * 10\<rfloor>" by simp
  then show ?thesis by (simp add: format_1f_def Let_def)
qed

lemma leg_cases:
  assumes "leg g prices cap a b (r, tc, plan) = Inr st'"
  obtains (drive) d where "distance g a b = Inr d" "real_of_int d \<le> r"
      "st' = (r - real_of_int d, tc, plan)"
  | (charge) d p where "distance g a b = Inr d" "r < real_of_int d" "prices a = Some p"
      "st' = (cap - real_of_int d, tc + (cap - r) * p,
              plan @ [\<lparr>city = a, energy = format_1f (cap - r), price = p\<rparr>])"
  using assms
  by (auto simp: leg_def price_of_Inr split: sum.splits if_splits)

lemma legs_invariant:
  assumes "legs g prices cap p st = Inr st'" and "P st"
    and "\<And>a b st st'. (a, b) \<in> set (zip p (tl p)) \<Longrightarrow> P st \<Longrightarrow>
           leg g prices cap a b st = Inr st' \<Longrightarrow> P st'"
  shows "P st'"
  using assms
proof (induction g prices cap p st rule: legs.induct)
  case (1 g prices cap a b path st)
  from "1.prems"(1) obtain st1 where st1: "leg g prices cap a b st = Inr st1"
    and rest: "legs g prices cap (b # path) st1 = Inr st'"
    by (auto split: sum.splits)
  have "P st1" using "1.prems"(3) [of a b st st1] "1.prems"(2) st1 by simp
  moreover have "P y'" if "(x, y) \<in> set (zip (b # path) (tl (b # path)))" "P y0"
    "leg g prices cap x y y0 = Inr y'" for x y y0 y'
    using "1.prems"(3) [of x y y0 y'] that by simp
  ultimately show ?case using "1.IH" [OF st1 rest] by blast
qed simp_all










lemma legs_subseq:
  "legs g prices cap p (r, tc, plan) = Inr (r', tc', plan') \<Longrightarrow>
     \<exists>new. plan' = plan @ new \<and> subseq (map city new) (butlast p)"
proof (induction p arbitrary: r tc plan rule: induct_list012)
  case (3 a b path)
  from "3.prems" obtain st where st: "leg g prices cap a b (r, tc, plan) = Inr st"
    and rest: "legs g prices cap (b # path) st = Inr (r', tc', plan')"
    by (auto split: sum.splits)
  from st show ?case
  proof (cases rule: leg_cases)
    case (drive d)
    from "3.IH"(2) [OF rest [unfolded drive(3)]] show ?thesis by auto
  next
    case (charge d p)
    from "3.IH"(2) [OF rest [unfolded charge(4)]] obtain new where
      "plan' = (plan @ [\<lparr>city = a, energy = format_1f (cap - r), price = p\<rparr>]) @ new"
      "subseq (map city new) (butlast (b # path))" by blast
    then show ?thesis
      by (intro exI [of _ "\<lparr>city = a, energy = format_1f (cap - r), price = p\<rparr> # new"]) simp
  qed
qed simp_all

lemma legs_enough:
  "wf_graph g \<Longrightarrow> is_path g p \<Longrightarrow> real_of_int (path_length g p) \<le> r \<Longrightarrow>
     legs g prices cap p (r, tc, plan) = Inr (r - real_of_int (path_length g p), tc, plan)"
proof (induction p arbitrary: r rule: induct_list012)
  case (3 a b path)
  from "3.prems"(2) obtain d where d: "distance g a b = Inr d" and rest: "is_path g (b # path)"
    by (auto split: sum.splits)
  have d0: "0 \<le> d" using distance_wf(3) [OF "3.prems"(1) d] .
  have l0: "0 \<le> path_length g (b # path)" using path_length_nonneg [OF "3.prems"(1) rest] .
  have len: "path_length g (a # b # path) = d + path_length g (b # path)" using d by simp
  have "leg g prices cap a b (r, tc, plan) = Inr (r - real_of_int d, tc, plan)"
    using d l0 "3.prems"(3) unfolding len by (simp add: leg_def)
  moreover have "legs g prices cap (b # path) (r - real_of_int d, tc, plan) =
      Inr (r - real_of_int d - real_of_int (path_length g (b # path)), tc, plan)"
    using "3.prems"(3) unfolding len by (intro "3.IH"(2) "3.prems"(1) rest) simp
  ultimately show ?case unfolding len by simp
qed simp_all

lemma legs_defined:
  "is_path g p \<Longrightarrow> set p \<subseteq> dom prices \<Longrightarrow> \<exists>st'. legs g prices cap p st = Inr st'"
proof (induction p arbitrary: st rule: induct_list012)
  case (3 a b path)
  from "3.prems"(1) obtain d where d: "distance g a b = Inr d" and rest: "is_path g (b # path)"
    by (auto split: sum.splits)
  from "3.prems"(2) obtain pa where pa: "prices a = Some pa" by auto
  have "\<exists>st1. leg g prices cap a b st = Inr st1"
    using d pa by (cases st) (simp add: leg_def price_of_def)
  then obtain st1 where "leg g prices cap a b st = Inr st1" ..
  moreover have "set (b # path) \<subseteq> dom prices" using "3.prems"(2) by simp
  from "3.IH"(2) [OF rest this, of st1]
  obtain st' where "legs g prices cap (b # path) st1 = Inr st'" ..
  ultimately have "legs g prices cap (a # b # path) st = Inr st'" by simp
  then show ?case ..
qed (simp_all del: split_paired_Ex)

lemma calculate_path_no_route:
  "dijkstra g start dest = Inr (c, []) \<Longrightarrow> calculate_path g prices start dest cap = Inr NoRoute"
  by (simp add: calculate_path_def charging_simulation_def)

lemma calculate_path_route:
  assumes "calculate_path g prices start dest cap = Inr (Route path td tc plan)"
  obtains r tc0 plan0 where "dijkstra g start dest = Inr (td, path)" "path \<noteq> []"
    "legs g prices cap path (cap, 0, []) = Inr (r, tc0, plan0)"
    "0 \<le> r \<and> tc = tc0 \<and> plan = plan0 \<or>
     r < 0 \<and> (\<exists>p. prices dest = Some p \<and> tc = tc0 + \<bar>r\<bar> * p \<and>
        plan = plan0 @ [\<lparr>city = dest, energy = format_1f \<bar>r\<bar>, price = p\<rparr>])"
  using assms unfolding calculate_path_def charging_simulation_def
  by (auto simp: price_of_Inr split: sum.splits if_splits prod.splits)

lemma path_length_zip:
  "path_length g p = (\<Sum>(u, v)\<leftarrow>zip p (tl p). edge_distance g u v)"
  by (induction p rule: induct_list012) simp_all

lemma is_path_zip:
  "is_path g p \<Longrightarrow> (u, v) \<in> set (zip p (tl p)) \<Longrightarrow> \<exists>d. distance g u v = Inr d"
  by (induction p rule: induct_list012) (auto split: sum.splits)

definition energy_nonneg :: "real \<Rightarrow> 'v charge_state \<Rightarrow> bool" where
  "energy_nonneg cap st \<longleftrightarrow>
     (case st of (r, tc, plan) \<Rightarrow> r \<le> cap \<and> list_all (\<lambda>s. 0 \<le> energy s) plan)"

definition energy_in_range :: "real \<Rightarrow> 'v charge_state \<Rightarrow> bool" where
  "energy_in_range cap st \<longleftrightarrow>
     (case st of (r, tc, plan) \<Rightarrow>
        0 \<le> r \<and> r \<le> cap \<and> cap - r \<in> \<int> \<and>
        list_all (\<lambda>s. 0 < energy s \<and> energy s \<le> cap) plan)"

lemma leg_energy_nonneg:
  assumes "wf_graph g" "leg g prices cap a b st = Inr st'" "energy_nonneg cap st"
  shows "energy_nonneg cap st'"
proof -
  obtain r tc plan where st: "st = (r, tc, plan)" by (cases st)
  from assms(2) [unfolded st] show ?thesis
  proof (cases rule: leg_cases)
    case (drive d)
    then show ?thesis
      using distance_wf(3) [OF assms(1) drive(1)] assms(3) st by (simp add: energy_nonneg_def)
  next
    case (charge d p)
    have "0 \<le> format_1f (cap - r)"
      using assms(3) st by (intro format_1f_nonneg) (simp add: energy_nonneg_def)
    then show ?thesis
      using charge(4) distance_wf(3) [OF assms(1) charge(1)] assms(3) st
      by (simp add: energy_nonneg_def)
  qed
qed

lemma leg_energy_in_range:
  assumes "wf_graph g" "leg g prices cap a b st = Inr st'" "energy_in_range cap st"
    and "real_of_int (edge_distance g a b) \<le> cap"
  shows "energy_in_range cap st'"
proof -
  obtain r tc plan where st: "st = (r, tc, plan)" by (cases st)
  from assms(2) [unfolded st] show ?thesis
  proof (cases rule: leg_cases)
    case (drive d)
    have "cap - r \<in> \<int>" using assms(3) st by (simp add: energy_in_range_def)
    then have "(cap - r) + real_of_int d \<in> \<int>" by (intro Ints_add Ints_of_int)
    moreover have "cap - (r - real_of_int d) = (cap - r) + real_of_int d" by simp
    ultimately have "cap - (r - real_of_int d) \<in> \<int>" by (simp only:)
    then show ?thesis
      using drive distance_wf(3) [OF assms(1) drive(1)] assms(3) st
      by (simp add: energy_in_range_def)
  next
    case (charge d p)
    have "cap - r \<in> \<int>" using assms(3) st by (simp add: energy_in_range_def)
    then have "format_1f (cap - r) = cap - r" by (rule format_1f_whole)
    then show ?thesis
      using charge distance_wf(3) [OF assms(1) charge(1)] assms(3,4) st
      by (simp add: energy_in_range_def)
  qed
qed

section \<open>Independence of the arrangement of the heap\<close>

text \<open>
  The list that \<^verbatim>\<open>heapq\<close> keeps is arranged by the history of pushes and pops. The
  search does not depend on the arrangement: two frontiers with the same tuples give the
  same result.
\<close>

lemma heappop_mset:
  assumes "mset pq = mset pq'"
  shows "fst (heappop pq) = fst (heappop pq')"
    "mset (snd (heappop pq)) = mset (snd (heappop pq'))"
proof -
  have sets: "set pq = set pq'" using assms by (rule mset_eq_setD)
  show "fst (heappop pq) = fst (heappop pq')"
    unfolding heappop_def Let_def fst_conv sets ..
  have "mset (remove1 (Min (set pq')) pq) = mset (remove1 (Min (set pq')) pq')"
    unfolding mset_remove1 assms ..
  then show "mset (snd (heappop pq)) = mset (snd (heappop pq'))"
    unfolding heappop_def Let_def snd_conv sets .
qed

lemma push_neighbors_mset:
  "mset pq = mset pq' \<Longrightarrow>
     mset (push_neighbors items vis c p pq) = mset (push_neighbors items vis c p pq')"
proof (induction items arbitrary: pq pq')
  case Nil
  then show ?case by simp
next
  case (Cons item items)
  obtain n d where item: "item = (n, d)" by (cases item)
  have pushed: "mset (heappush pq (c + d, n, p)) = mset (heappush pq' (c + d, n, p))"
    using Cons.prems by (simp add: heappush_def)
  show ?case
  proof (cases "n \<in> vis")
    case True
    then show ?thesis using Cons.IH [OF Cons.prems] by (simp add: item)
  next
    case False
    then show ?thesis using Cons.IH [OF pushed] by (simp add: item)
  qed
qed

lemma dijkstra_loop_mset:
  "mset pq = mset pq' \<Longrightarrow> dijkstra_loop g t pq vis = dijkstra_loop g t pq' vis"
proof (induction g t pq vis arbitrary: pq' rule: dijkstra_loop.induct)
  case (1 g t pq vis)
  show ?case
  proof (cases "pq = []")
    case True
    then have "pq' = []" using "1.prems" by simp
    with True show ?thesis by (simp add: dijkstra_loop.simps)
  next
    case ne: False
    then have ne': "pq' \<noteq> []" using "1.prems" by auto
    obtain c n p pq1 where pop: "heappop pq = ((c, n, p), pq1)"
      by (metis prod.exhaust)
    obtain pq1' where pop': "heappop pq' = ((c, n, p), pq1')" and eq1: "mset pq1 = mset pq1'"
      using heappop_mset [OF "1.prems"] pop by (cases "heappop pq'") simp
    show ?thesis
    proof (cases "n \<in> vis")
      case True
      have "dijkstra_loop g t pq1 vis = dijkstra_loop g t pq1' vis"
        using "1.IH"(1) [OF ne pop [symmetric] refl refl refl refl True eq1] .
      then show ?thesis
        using ne ne' pop pop' True
        by (simp add: dijkstra_loop.simps [of g t pq] dijkstra_loop.simps [of g t pq'])
    next
      case nv: False
      show ?thesis
      proof (cases "n = t")
        case True
        then show ?thesis
          using ne ne' pop pop' nv
          by (simp add: dijkstra_loop.simps [of g t pq] dijkstra_loop.simps [of g t pq'])
      next
        case nt: False
        show ?thesis
        proof (cases "map_of g n")
          case None
          then show ?thesis
            using ne ne' pop pop' nv nt
            by (simp add: dijkstra_loop.simps [of g t pq] dijkstra_loop.simps [of g t pq'])
        next
          case (Some items)
          have "dijkstra_loop g t (push_neighbors items (insert n vis) c (p @ [n]) pq1)
              (insert n vis) =
            dijkstra_loop g t (push_neighbors items (insert n vis) c (p @ [n]) pq1')
              (insert n vis)"
            using "1.IH"(2) [OF ne pop [symmetric] refl refl refl refl nv refl refl nt Some
                push_neighbors_mset [OF eq1]] .
          then show ?thesis
            using ne ne' pop pop' nv nt Some
            by (simp add: dijkstra_loop.simps [of g t pq] dijkstra_loop.simps [of g t pq'] Let_def)
        qed
      qed
    qed
  qed
qed

lemma heap_pops_heappop:
  assumes "heap_pops pq x pq1"
  shows "pq \<noteq> []" "fst (heappop pq) = x" "mset (snd (heappop pq)) = mset pq1"
proof -
  have m: "mset pq = add_mset x (mset pq1)" and le: "\<forall>y \<in> set pq. x \<le> y"
    using assms by (simp_all add: heap_pops_def)
  have "x \<in># mset pq" unfolding m by simp
  then have x: "x \<in> set pq" by simp
  then show "pq \<noteq> []" by auto
  have min: "Min (set pq) = x" using x le by (intro Min_eqI) simp_all
  then show "fst (heappop pq) = x" by (simp add: heappop_def Let_def)
  have "mset (remove1 x pq) = mset pq1" unfolding mset_remove1 m by simp
  then show "mset (snd (heappop pq)) = mset pq1" by (simp add: heappop_def Let_def min)
qed

lemma heappop_heap_pops: "pq \<noteq> [] \<Longrightarrow> heappop pq = (x, pq1) \<Longrightarrow> heap_pops pq x pq1"
  using heappop_min(2,5) [of pq x pq1] by (simp add: heap_pops_def)

lemma dijkstra_run_unique: "dijkstra_run g t pq vis r \<Longrightarrow> r = dijkstra_loop g t pq vis"
proof (induction rule: dijkstra_run.induct)
  case (exhausted visited)
  show ?case by (simp add: dijkstra_loop.simps)
next
  case (skip pq cost node path pq1 visited r)
  note hp = heap_pops_heappop [OF skip.hyps(1)]
  obtain pq1' where pop: "heappop pq = ((cost, node, path), pq1')" and eq: "mset pq1' = mset pq1"
    using hp(2,3) by (cases "heappop pq") simp
  have "dijkstra_loop g t pq visited = dijkstra_loop g t pq1' visited"
    using hp(1) pop skip.hyps(2) by (simp add: dijkstra_loop.simps [of g t pq])
  also have "\<dots> = dijkstra_loop g t pq1 visited" using eq by (rule dijkstra_loop_mset)
  finally show ?case using skip.IH by simp
next
  case (found pq cost path pq1 visited)
  note hp = heap_pops_heappop [OF found.hyps(1)]
  obtain pq1' where pop: "heappop pq = ((cost, t, path), pq1')"
    using hp(2) by (cases "heappop pq") simp
  show ?case using hp(1) pop found.hyps(2) by (simp add: dijkstra_loop.simps [of g t pq])
next
  case (key_error pq cost node path pq1 visited)
  note hp = heap_pops_heappop [OF key_error.hyps(1)]
  obtain pq1' where pop: "heappop pq = ((cost, node, path), pq1')"
    using hp(2) by (cases "heappop pq") simp
  show ?case
    using hp(1) pop key_error.hyps(2,3,4) by (simp add: dijkstra_loop.simps [of g t pq])
next
  case (expand pq cost node path pq1 visited items pq2 r)
  note hp = heap_pops_heappop [OF expand.hyps(1)]
  obtain pq1' where pop: "heappop pq = ((cost, node, path), pq1')" and eq: "mset pq1' = mset pq1"
    using hp(2,3) by (cases "heappop pq") simp
  let ?vis = "insert node visited"
  have "dijkstra_loop g t pq visited =
      dijkstra_loop g t (push_neighbors items ?vis cost (path @ [node]) pq1') ?vis"
    using hp(1) pop expand.hyps(2,3,4) by (simp add: dijkstra_loop.simps [of g t pq] Let_def)
  also have "\<dots> = dijkstra_loop g t pq2 ?vis"
    using push_neighbors_mset [OF eq, of items ?vis cost "path @ [node]"] expand.hyps(5)
    by (intro dijkstra_loop_mset) simp
  finally show ?case using expand.IH by simp
qed

lemma dijkstra_loop_run: "dijkstra_run g t pq vis (dijkstra_loop g t pq vis)"
proof (induction g t pq vis rule: dijkstra_loop.induct)
  case (1 g t pq vis)
  show ?case
  proof (cases "pq = []")
    case True
    then show ?thesis by (simp add: dijkstra_loop.simps exhausted)
  next
    case ne: False
    obtain c n p pq1 where pop: "heappop pq = ((c, n, p), pq1)"
      by (metis prod.exhaust)
    note hp = heappop_heap_pops [OF ne pop]
    show ?thesis
    proof (cases "n \<in> vis")
      case True
      have "dijkstra_run g t pq1 vis (dijkstra_loop g t pq1 vis)"
        using "1.IH"(1) [OF ne pop [symmetric] refl refl refl refl True] .
      from skip [OF hp True this] show ?thesis
        using ne pop True by (simp add: dijkstra_loop.simps [of g t pq])
    next
      case nv: False
      show ?thesis
      proof (cases "n = t")
        case True
        from found [OF hp [unfolded True] nv [unfolded True]] show ?thesis
          using ne pop nv True by (simp add: dijkstra_loop.simps [of g t pq])
      next
        case nt: False
        show ?thesis
        proof (cases "map_of g n")
          case None
          from key_error [OF hp nv nt None] show ?thesis
            using ne pop nv nt None by (simp add: dijkstra_loop.simps [of g t pq])
        next
          case (Some items)
          have "dijkstra_run g t (push_neighbors items (insert n vis) c (p @ [n]) pq1)
              (insert n vis)
              (dijkstra_loop g t (push_neighbors items (insert n vis) c (p @ [n]) pq1)
                 (insert n vis))"
            using "1.IH"(2) [OF ne pop [symmetric] refl refl refl refl nv refl refl nt Some] .
          from expand [OF hp nv nt Some refl this] show ?thesis
            using ne pop nv nt Some by (simp add: dijkstra_loop.simps [of g t pq] Let_def)
        qed
      qed
    qed
  qed
qed

lemma calculate_path_is_run:
  "calculate_path_run g prices start dest cap (calculate_path g prices start dest cap)"
  unfolding calculate_path_run_def calculate_path_def dijkstra_def
  using dijkstra_loop_run by blast

section \<open>Facts about the dataset\<close>

lemma G_eq:
  "G =
     [(''Mumbai'', [(''Nashik'', 180), (''Goa'', 580)]),
      (''Nashik'', [(''Mumbai'', 180), (''Pune'', 300)]),
      (''Goa'', [(''Mumbai'', 580), (''Kolhapur'', 200), (''Hyderabad'', 610)]),
      (''Pune'', [(''Nashik'', 300), (''Satara'', 120)]),
      (''Satara'', [(''Pune'', 120), (''Kolhapur'', 180)]),
      (''Kolhapur'', [(''Satara'', 180), (''Goa'', 200), (''Hyderabad'', 300)]),
      (''Hyderabad'', [(''Goa'', 610), (''Kolhapur'', 300)])]"
  by (simp add: G_def edges_def add_edge_def add_node_def nodes_def)

lemma wf_graph_G: "wf_graph G"
  unfolding G_eq wf_graph_def nodes_def by simp

lemma prices_cover_G: "nodes G \<subseteq> dom (map_of charging_prices)"
  unfolding G_eq by (simp add: nodes_def charging_prices_def)

lemma connected_Mumbai_Goa: "connected_in G ''Mumbai'' ''Goa''"
proof -
  have "path_from_to G ''Mumbai'' ''Goa'' [''Mumbai'', ''Goa'']"
    unfolding G_eq by (simp add: path_from_to_def distance_def nodes_def)
  then show ?thesis unfolding connected_in_def ..
qed

lemma connected_Pune_Kolhapur: "connected_in G ''Pune'' ''Kolhapur''"
proof -
  have "path_from_to G ''Pune'' ''Kolhapur'' [''Pune'', ''Satara'', ''Kolhapur'']"
    unfolding G_eq by (simp add: path_from_to_def distance_def nodes_def)
  then show ?thesis unfolding connected_in_def ..
qed

lemma dijkstra_Pune_Kolhapur:
  "dijkstra G ''Pune'' ''Kolhapur'' = Inr (Fin 300, [''Pune'', ''Satara'', ''Kolhapur''])"
  by code_simp

lemma run_Mumbai_Goa_100:
  "calculate_path G (map_of charging_prices) ''Mumbai'' ''Goa'' 100 =
     Inr (Route [''Mumbai'', ''Goa''] (Fin 580) 960
            [\<lparr>city = ''Mumbai'', energy = 0, price = 18 / 10\<rparr>,
             \<lparr>city = ''Goa'', energy = 480, price = 2\<rparr>])"
  by code_simp


lemma run_Pune_Hyderabad_350:
  "calculate_path G (map_of charging_prices) ''Pune'' ''Hyderabad'' 350 =
     Inr (Route [''Pune'', ''Satara'', ''Kolhapur'', ''Hyderabad''] (Fin 600) 540
            [\<lparr>city = ''Kolhapur'', energy = 300, price = 18 / 10\<rparr>])"
  by code_simp

lemma run_Mumbai_Hyderabad_100:
  "calculate_path G (map_of charging_prices) ''Mumbai'' ''Hyderabad'' 100 =
     Inr (Route [''Mumbai'', ''Goa'', ''Kolhapur'', ''Hyderabad''] (Fin 1080) 1960
            [\<lparr>city = ''Mumbai'', energy = 0, price = 18 / 10\<rparr>,
             \<lparr>city = ''Goa'', energy = 580, price = 2\<rparr>,
             \<lparr>city = ''Kolhapur'', energy = 200, price = 18 / 10\<rparr>,
             \<lparr>city = ''Hyderabad'', energy = 200, price = 22 / 10\<rparr>])"
  by code_simp

lemma isolated_not_connected:
  assumes "map_of g s = Some []" "s \<noteq> t"
  shows "\<not> connected_in g s t"
proof
  assume "connected_in g s t"
  then obtain p where p: "is_path g p" "hd p = s" "last p = t"
    by (auto simp: connected_in_def path_from_to_def)
  show False
  proof (cases p)
    case Nil
    then show ?thesis using p by simp
  next
    case (Cons x xs)
    show ?thesis
    proof (cases xs)
      case Nil
      then show ?thesis using p Cons assms(2) by simp
    next
      case (Cons y zs)
      then show ?thesis
        using p \<open>p = x # xs\<close> assms(1) by (auto simp: distance_def split: sum.splits)
    qed
  qed
qed

lemma wf_graph_add_node: "wf_graph g \<Longrightarrow> wf_graph (add_node u g)"
  by (auto simp: wf_graph_def add_node_def nodes_def)

section \<open>The claims\<close>

text \<open>
  C1. For every pair of cities \<open>start\<close> and \<open>dest\<close> that are connected in the graph,
  \<open>dijkstra\<close> returns a pair of a total distance and a path, where the path is a path
  from \<open>start\<close> to \<open>dest\<close> in the graph, the total distance is the length of that path,
  and no path from \<open>start\<close> to \<open>dest\<close> has a strictly smaller length.
\<close>

theorem dijkstra_shortest_path:
  assumes "wf_graph g" and "connected_in g start dest"
  shows "\<exists>total_distance path.
    dijkstra g start dest = Inr (Fin total_distance, path) \<and>
    path_from_to g start dest path \<and>
    path_length g path = total_distance \<and>
    (\<forall>p. path_from_to g start dest p \<longrightarrow> total_distance \<le> path_length g p)"
  using dijkstra_connected [OF assms] by metis

theorem dijkstra_shortest_path_witness:
  "wf_graph G \<and> connected_in G ''Mumbai'' ''Goa'' \<and>
   (\<exists>total_distance path.
      dijkstra G ''Mumbai'' ''Goa'' = Inr (Fin total_distance, path) \<and>
      path_from_to G ''Mumbai'' ''Goa'' path \<and>
      path_length G path = total_distance \<and>
      (\<forall>p. path_from_to G ''Mumbai'' ''Goa'' p \<longrightarrow> total_distance \<le> path_length G p))"
  using dijkstra_shortest_path [OF wf_graph_G connected_Mumbai_Goa]
    wf_graph_G connected_Mumbai_Goa by simp

text \<open>
  C2. For every pair of connected cities, the total distance returned by \<open>dijkstra\<close>,
  and passed through by \<open>calculate_path\<close>, equals the sum, over the consecutive pairs of
  the returned path, of the graph's edge distance for that pair.
\<close>

theorem total_distance_is_sum_of_roads:
  assumes "wf_graph g" and "connected_in g start dest" and "nodes g \<subseteq> dom prices"
  shows "\<exists>total_distance path total_cost charging_plan.
    dijkstra g start dest = Inr (Fin total_distance, path) \<and>
    calculate_path g prices start dest battery_capacity =
      Inr (Route path (Fin total_distance) total_cost charging_plan) \<and>
    list_all (\<lambda>(u, v). distance g u v = Inr (edge_distance g u v)) (zip path (tl path)) \<and>
    total_distance = (\<Sum>(u, v)\<leftarrow>zip path (tl path). edge_distance g u v)"
proof -
  from dijkstra_connected [OF assms(1,2)] obtain c p where
    dj: "dijkstra g start dest = Inr (Fin c, p)" and p: "path_from_to g start dest p"
    and len: "path_length g p = c" by metis
  have path: "is_path g p" using p by (simp add: path_from_to_def)
  then have ne: "p \<noteq> []" by auto
  have "set p \<subseteq> dom prices" using is_path_nodes [OF assms(1) path] assms(3) by blast
  from legs_defined [OF path this] obtain r tc plan where
    legs: "legs g prices battery_capacity p (battery_capacity, 0, []) = Inr (r, tc, plan)"
    by (metis prod_cases3)
  have "last p \<in> set p" using ne by simp
  then have dest: "dest \<in> dom prices"
    using is_path_nodes [OF assms(1) path] assms(3) p by (auto simp: path_from_to_def)
  then obtain pd where pd: "prices dest = Some pd" by auto
  have "\<exists>tc' plan'. calculate_path g prices start dest battery_capacity =
      Inr (Route p (Fin c) tc' plan')"
    using dj ne legs pd by (simp add: calculate_path_def charging_simulation_def price_of_def)
  moreover have "list_all (\<lambda>(u, v). distance g u v = Inr (edge_distance g u v)) (zip p (tl p))"
    unfolding list_all_iff using is_path_zip [OF path] by fastforce
  moreover have "c = (\<Sum>(u, v)\<leftarrow>zip p (tl p). edge_distance g u v)"
    using len path_length_zip [of g p] by simp
  ultimately show ?thesis using dj by blast
qed

theorem total_distance_is_sum_of_roads_witness:
  "wf_graph G \<and> connected_in G ''Mumbai'' ''Goa'' \<and> nodes G \<subseteq> dom (map_of charging_prices) \<and>
   (\<exists>total_distance path total_cost charging_plan.
      dijkstra G ''Mumbai'' ''Goa'' = Inr (Fin total_distance, path) \<and>
      calculate_path G (map_of charging_prices) ''Mumbai'' ''Goa'' 400 =
        Inr (Route path (Fin total_distance) total_cost charging_plan) \<and>
      list_all (\<lambda>(u, v). distance G u v = Inr (edge_distance G u v)) (zip path (tl path)) \<and>
      total_distance = (\<Sum>(u, v)\<leftarrow>zip path (tl path). edge_distance G u v))"
  using total_distance_is_sum_of_roads [OF wf_graph_G connected_Mumbai_Goa prices_cover_G, of 400]
    wf_graph_G connected_Mumbai_Goa prices_cover_G by simp




text \<open>
  C4, as the specification states it: for every pair of connected cities and every
  battery capacity greater than 0, every charging stop records an energy amount that is
  strictly greater than 0 and at most the battery capacity. The program does not do
  that: from Mumbai to Goa with capacity 100 the stop at Mumbai records 0 units, and the
  stop at Goa records 480 units.
\<close>

theorem stop_energy_counterexample:
  "connected_in G ''Mumbai'' ''Goa'' \<and> (0::real) < 100 \<and>
   calculate_path G (map_of charging_prices) ''Mumbai'' ''Goa'' 100 =
     Inr (Route [''Mumbai'', ''Goa''] (Fin 580) 960
            [\<lparr>city = ''Mumbai'', energy = 0, price = 18 / 10\<rparr>,
             \<lparr>city = ''Goa'', energy = 480, price = 2\<rparr>]) \<and>
   \<not> 0 < energy \<lparr>city = ''Mumbai'', energy = 0, price = 18 / 10\<rparr> \<and>
   \<not> energy \<lparr>city = ''Goa'', energy = 480, price = 2\<rparr> \<le> 100"
  using connected_Mumbai_Goa run_Mumbai_Goa_100 by simp

text \<open>
  C4, amended: for every battery capacity greater than 0, every charging stop produced
  by \<open>calculate_path\<close> records an energy amount of at least 0; when no road of the
  returned path is longer than the battery capacity, every stop's energy amount is
  strictly greater than 0 and at most the battery capacity.
\<close>

theorem stop_energy_bounds:
  assumes "wf_graph g" and "0 < battery_capacity"
    and "calculate_path g prices start dest battery_capacity =
      Inr (Route path total_distance total_cost charging_plan)"
  shows "list_all (\<lambda>s. 0 \<le> energy s) charging_plan \<and>
    (list_all (\<lambda>(u, v). real_of_int (edge_distance g u v) \<le> battery_capacity)
       (zip path (tl path)) \<longrightarrow>
     list_all (\<lambda>s. 0 < energy s \<and> energy s \<le> battery_capacity) charging_plan)"
proof -
  let ?cap = battery_capacity
  from assms(3) obtain r tc0 plan0 where
    legs: "legs g prices ?cap path (?cap, 0, []) = Inr (r, tc0, plan0)"
    and fin: "0 \<le> r \<and> total_cost = tc0 \<and> charging_plan = plan0 \<or>
      r < 0 \<and> (\<exists>p. prices dest = Some p \<and> total_cost = tc0 + \<bar>r\<bar> * p \<and>
        charging_plan = plan0 @ [\<lparr>city = dest, energy = format_1f \<bar>r\<bar>, price = p\<rparr>])"
    by (rule calculate_path_route)
  have "energy_nonneg ?cap (r, tc0, plan0)"
  proof (rule legs_invariant [OF legs, where P = "energy_nonneg ?cap"])
    show "energy_nonneg ?cap (?cap, 0, [])" by (simp add: energy_nonneg_def)
  next
    fix a b st st'
    assume "energy_nonneg ?cap st" "leg g prices ?cap a b st = Inr st'"
    then show "energy_nonneg ?cap st'" using leg_energy_nonneg [OF assms(1)] by blast
  qed
  then have nonneg: "list_all (\<lambda>s. 0 \<le> energy s) charging_plan"
    using fin format_1f_nonneg [of "\<bar>r\<bar>"] by (auto simp: energy_nonneg_def)
  have "list_all (\<lambda>s. 0 < energy s \<and> energy s \<le> ?cap) charging_plan"
    if short: "list_all (\<lambda>(u, v). real_of_int (edge_distance g u v) \<le> ?cap) (zip path (tl path))"
  proof -
    have "energy_in_range ?cap (r, tc0, plan0)"
    proof (rule legs_invariant [OF legs, where P = "energy_in_range ?cap"])
      show "energy_in_range ?cap (?cap, 0, [])"
        using assms(2) by (simp add: energy_in_range_def)
    next
      fix a b st st'
      assume "(a, b) \<in> set (zip path (tl path))" "energy_in_range ?cap st"
        "leg g prices ?cap a b st = Inr st'"
      moreover from this(1) short have "real_of_int (edge_distance g a b) \<le> ?cap"
        by (auto simp: list_all_iff)
      ultimately show "energy_in_range ?cap st'"
        using leg_energy_in_range [OF assms(1)] by blast
    qed
    then show ?thesis using fin by (auto simp: energy_in_range_def)
  qed
  with nonneg show ?thesis by blast
qed

theorem stop_energy_bounds_witness:
  "wf_graph G \<and> (0::real) < 350 \<and>
   calculate_path G (map_of charging_prices) ''Pune'' ''Hyderabad'' 350 =
     Inr (Route [''Pune'', ''Satara'', ''Kolhapur'', ''Hyderabad''] (Fin 600) 540
            [\<lparr>city = ''Kolhapur'', energy = 300, price = 18 / 10\<rparr>]) \<and>
   list_all (\<lambda>(u, v). real_of_int (edge_distance G u v) \<le> 350)
     (zip [''Pune'', ''Satara'', ''Kolhapur'', ''Hyderabad'']
        (tl [''Pune'', ''Satara'', ''Kolhapur'', ''Hyderabad''])) \<and>
   list_all (\<lambda>s. 0 < energy s \<and> energy s \<le> 350)
     [\<lparr>city = ''Kolhapur'', energy = 300, price = 18 / 10\<rparr>]"
proof -
  have short: "list_all (\<lambda>(u, v). real_of_int (edge_distance G u v) \<le> 350)
     (zip [''Pune'', ''Satara'', ''Kolhapur'', ''Hyderabad'']
        (tl [''Pune'', ''Satara'', ''Kolhapur'', ''Hyderabad'']))"
    unfolding G_eq by (simp add: edge_distance_def distance_def)
  have pos: "(0::real) < 350" by simp
  from stop_energy_bounds [OF wf_graph_G pos run_Pune_Hyderabad_350] short
  have "list_all (\<lambda>s. 0 < energy s \<and> energy s \<le> 350)
     [\<lparr>city = ''Kolhapur'', energy = 300, price = 18 / 10\<rparr>]" by blast
  then show ?thesis using wf_graph_G pos run_Pune_Hyderabad_350 short by blast
qed

text \<open>
  C5. For every pair of connected cities: if the battery capacity is greater than or
  equal to the total distance of the shortest path, then \<open>calculate_path\<close> returns an
  empty charging plan and a total cost of 0.
\<close>

theorem enough_battery_no_charging:
  assumes "wf_graph g" and "connected_in g start dest"
    and "dijkstra g start dest = Inr (Fin total_distance, path)"
    and "real_of_int total_distance \<le> battery_capacity"
  shows "calculate_path g prices start dest battery_capacity =
    Inr (Route path (Fin total_distance) 0 [])"
proof -
  from dijkstra_connected [OF assms(1,2)] assms(3)
  have p: "path_from_to g start dest path" and len: "path_length g path = total_distance"
    by auto
  have path: "is_path g path" using p by (simp add: path_from_to_def)
  then have ne: "path \<noteq> []" by auto
  have "legs g prices battery_capacity path (battery_capacity, 0, []) =
      Inr (battery_capacity - real_of_int total_distance, 0, [])"
    using legs_enough [OF assms(1) path, of battery_capacity] assms(4) len by simp
  then show ?thesis using assms(3,4) ne by (simp add: calculate_path_def charging_simulation_def)
qed

theorem enough_battery_no_charging_witness:
  "wf_graph G \<and> connected_in G ''Pune'' ''Kolhapur'' \<and>
   dijkstra G ''Pune'' ''Kolhapur'' = Inr (Fin 300, [''Pune'', ''Satara'', ''Kolhapur'']) \<and>
   real_of_int 300 \<le> 500 \<and>
   calculate_path G (map_of charging_prices) ''Pune'' ''Kolhapur'' 500 =
     Inr (Route [''Pune'', ''Satara'', ''Kolhapur''] (Fin 300) 0 [])"
  using enough_battery_no_charging [OF wf_graph_G connected_Pune_Kolhapur
      dijkstra_Pune_Kolhapur, of 500 "map_of charging_prices"]
    wf_graph_G connected_Pune_Kolhapur dijkstra_Pune_Kolhapur
  by simp

text \<open>
  C6. For every pair of cities \<open>start\<close> and \<open>dest\<close> with no path between them in the graph,
  \<open>dijkstra\<close> returns the infinite distance with an empty path, and \<open>calculate_path\<close>
  returns the no-route result.
\<close>

theorem no_path_no_route:
  assumes "wf_graph g" and "start \<in> nodes g" and "\<not> connected_in g start dest"
  shows "dijkstra g start dest = Inr (PosInf, []) \<and>
    calculate_path g prices start dest battery_capacity = Inr NoRoute"
proof -
  have post: "dijkstra_post g start dest (dijkstra g start dest)"
    using dijkstra_correct [OF assms(1,2)] .
  have "dijkstra g start dest = Inr (PosInf, [])"
  proof (cases "dijkstra g start dest")
    case (Inl e)
    then show ?thesis using post by (simp add: dijkstra_post_def)
  next
    case (Inr r)
    obtain c p where r: "r = (c, p)" by (cases r)
    show ?thesis
    proof (cases c)
      case (Fin n)
      then have "path_from_to g start dest p" using post Inr r by (simp add: dijkstra_post_def)
      then show ?thesis using assms(3) by (auto simp: connected_in_def)
    next
      case PosInf
      then show ?thesis using post Inr r by (simp add: dijkstra_post_def)
    qed
  qed
  then show ?thesis by (simp add: calculate_path_no_route)
qed

theorem no_path_no_route_witness:
  "wf_graph (add_node ''Delhi'' G) \<and> ''Delhi'' \<in> nodes (add_node ''Delhi'' G) \<and>
   ''Goa'' \<in> nodes (add_node ''Delhi'' G) \<and>
   \<not> connected_in (add_node ''Delhi'' G) ''Delhi'' ''Goa'' \<and>
   dijkstra (add_node ''Delhi'' G) ''Delhi'' ''Goa'' = Inr (PosInf, []) \<and>
   calculate_path (add_node ''Delhi'' G) (map_of charging_prices) ''Delhi'' ''Goa'' 400 =
     Inr NoRoute"
proof -
  have wf: "wf_graph (add_node ''Delhi'' G)" using wf_graph_G by (rule wf_graph_add_node)
  have n: "''Delhi'' \<in> nodes (add_node ''Delhi'' G)" "''Goa'' \<in> nodes (add_node ''Delhi'' G)"
    unfolding G_eq by (simp_all add: add_node_def nodes_def)
  have "map_of (add_node ''Delhi'' G) ''Delhi'' = Some []"
    unfolding G_eq by (simp add: add_node_def nodes_def)
  then have nc: "\<not> connected_in (add_node ''Delhi'' G) ''Delhi'' ''Goa''"
    by (rule isolated_not_connected) simp
  show ?thesis
    using no_path_no_route [OF wf n(1) nc, of "map_of charging_prices" 400] wf n nc by simp
qed

text \<open>
  C7. On the fixed dataset, \<^verbatim>\<open>calculate_path('Mumbai', 'Goa', 400)\<close> returns the path
  Mumbai, Goa, the total distance 580, the total cost 360 and a charging plan of exactly
  two stops: 0 units at Mumbai at price 1.8, then 180 units at Goa at price 2.0.
\<close>

theorem calculate_path_Mumbai_Goa_400:
  "calculate_path G (map_of charging_prices) ''Mumbai'' ''Goa'' 400 =
     Inr (Route [''Mumbai'', ''Goa''] (Fin 580) 360
            [\<lparr>city = ''Mumbai'', energy = 0, price = 18 / 10\<rparr>,
             \<lparr>city = ''Goa'', energy = 180, price = 2\<rparr>])"
  by code_simp

text \<open>
  C8. For every start city, end city and battery capacity, two invocations of
  \<open>calculate_path\<close> with the same inputs against the unchanged graph return identical
  outputs (the same path, total distance, total cost and charging plan), whatever the
  arrangement of the heap in either invocation.
\<close>

theorem calculate_path_deterministic:
  assumes "calculate_path_run g prices start dest battery_capacity first"
    and "calculate_path_run g prices start dest battery_capacity second"
  shows "first = second"
proof -
  from assms obtain r1 r2 where
    "dijkstra_run g dest [(0, start, [])] {} r1"
    "first = charging_simulation g prices dest battery_capacity r1"
    "dijkstra_run g dest [(0, start, [])] {} r2"
    "second = charging_simulation g prices dest battery_capacity r2"
    unfolding calculate_path_run_def by blast
  then show ?thesis using dijkstra_run_unique [of g dest "[(0, start, [])]" "{}"] by metis
qed

theorem calculate_path_deterministic_witness:
  "calculate_path_run G (map_of charging_prices) ''Mumbai'' ''Goa'' 100
     (calculate_path G (map_of charging_prices) ''Mumbai'' ''Goa'' 100) \<and>
   calculate_path_run G (map_of charging_prices) ''Mumbai'' ''Goa'' 100
     (Inr (Route [''Mumbai'', ''Goa''] (Fin 580) 960
            [\<lparr>city = ''Mumbai'', energy = 0, price = 18 / 10\<rparr>,
             \<lparr>city = ''Goa'', energy = 480, price = 2\<rparr>])) \<and>
   calculate_path G (map_of charging_prices) ''Mumbai'' ''Goa'' 100 =
     Inr (Route [''Mumbai'', ''Goa''] (Fin 580) 960
            [\<lparr>city = ''Mumbai'', energy = 0, price = 18 / 10\<rparr>,
             \<lparr>city = ''Goa'', energy = 480, price = 2\<rparr>])"
proof -
  have a: "calculate_path_run G (map_of charging_prices) ''Mumbai'' ''Goa'' 100
     (calculate_path G (map_of charging_prices) ''Mumbai'' ''Goa'' 100)"
    by (rule calculate_path_is_run)
  have b: "calculate_path_run G (map_of charging_prices) ''Mumbai'' ''Goa'' 100
     (Inr (Route [''Mumbai'', ''Goa''] (Fin 580) 960
            [\<lparr>city = ''Mumbai'', energy = 0, price = 18 / 10\<rparr>,
             \<lparr>city = ''Goa'', energy = 480, price = 2\<rparr>]))"
    using a unfolding run_Mumbai_Goa_100 .
  from calculate_path_deterministic [OF a b] a b show ?thesis by blast
qed

text \<open>
  C9. For every pair of connected cities, the path returned by \<open>dijkstra\<close> is simple:
  no city appears in it more than once.
\<close>

theorem dijkstra_path_simple:
  assumes "wf_graph g" and "connected_in g start dest"
  shows "\<exists>total_distance path.
    dijkstra g start dest = Inr (Fin total_distance, path) \<and> distinct path"
  using dijkstra_connected [OF assms] by metis

theorem dijkstra_path_simple_witness:
  "wf_graph G \<and> connected_in G ''Pune'' ''Kolhapur'' \<and>
   (\<exists>total_distance path.
      dijkstra G ''Pune'' ''Kolhapur'' = Inr (Fin total_distance, path) \<and> distinct path)"
  using dijkstra_path_simple [OF wf_graph_G connected_Pune_Kolhapur]
    wf_graph_G connected_Pune_Kolhapur by simp

text \<open>
  C10. For every run of \<open>calculate_path\<close> that returns a path, every charging stop's
  city is a city of the returned path, and the stops occur in traversal order: the
  intermediate stops in the order their cities are visited along the path, with the
  destination stop, if present, last.
\<close>

theorem stops_in_traversal_order:
  assumes "calculate_path g prices start dest battery_capacity =
    Inr (Route path total_distance total_cost charging_plan)"
  shows "\<exists>intermediate final.
    charging_plan = intermediate @ final \<and>
    subseq (map city intermediate) (butlast path) \<and>
    (final = [] \<or> (\<exists>s. final = [s] \<and> city s = dest)) \<and>
    last path = dest \<and>
    subseq (map city charging_plan) path"
proof -
  from assms obtain r tc0 plan0 where
    dj: "dijkstra g start dest = Inr (total_distance, path)" and ne: "path \<noteq> []"
    and legs: "legs g prices battery_capacity path (battery_capacity, 0, []) = Inr (r, tc0, plan0)"
    and fin: "0 \<le> r \<and> total_cost = tc0 \<and> charging_plan = plan0 \<or>
      r < 0 \<and> (\<exists>p. prices dest = Some p \<and> total_cost = tc0 + \<bar>r\<bar> * p \<and>
        charging_plan = plan0 @ [\<lparr>city = dest, energy = format_1f \<bar>r\<bar>, price = p\<rparr>])"
    by (rule calculate_path_route)
  have last: "last path = dest"
    using dijkstra_loop_shape [OF dj [unfolded dijkstra_def]] ne by auto
  from legs_subseq [OF legs] have sub: "subseq (map city plan0) (butlast path)" by simp
  obtain final where final: "charging_plan = plan0 @ final"
    "final = [] \<or> (\<exists>s. final = [s] \<and> city s = dest)"
    using fin by auto
  have "subseq (map city final) [last path]" using final(2) last by auto
  then have "subseq (map city plan0 @ map city final) (butlast path @ [last path])"
    using sub by (rule list_emb_append_mono [rotated])
  then have "subseq (map city charging_plan) path" using final(1) ne by simp
  then show ?thesis using final sub last by blast
qed

theorem stops_in_traversal_order_witness:
  "calculate_path G (map_of charging_prices) ''Mumbai'' ''Hyderabad'' 100 =
     Inr (Route [''Mumbai'', ''Goa'', ''Kolhapur'', ''Hyderabad''] (Fin 1080) 1960
            [\<lparr>city = ''Mumbai'', energy = 0, price = 18 / 10\<rparr>,
             \<lparr>city = ''Goa'', energy = 580, price = 2\<rparr>,
             \<lparr>city = ''Kolhapur'', energy = 200, price = 18 / 10\<rparr>,
             \<lparr>city = ''Hyderabad'', energy = 200, price = 22 / 10\<rparr>]) \<and>
   (\<exists>intermediate final.
      [\<lparr>city = ''Mumbai'', energy = 0, price = 18 / 10\<rparr>,
             \<lparr>city = ''Goa'', energy = 580, price = 2\<rparr>,
             \<lparr>city = ''Kolhapur'', energy = 200, price = 18 / 10\<rparr>,
             \<lparr>city = ''Hyderabad'', energy = 200, price = 22 / 10\<rparr>] = intermediate @ final \<and>
      subseq (map city intermediate) (butlast [''Mumbai'', ''Goa'', ''Kolhapur'', ''Hyderabad'']) \<and>
      (final = [] \<or> (\<exists>s. final = [s] \<and> city s = ''Hyderabad'')) \<and>
      last [''Mumbai'', ''Goa'', ''Kolhapur'', ''Hyderabad''] = ''Hyderabad'' \<and>
      subseq
        (map city
           [\<lparr>city = ''Mumbai'', energy = 0, price = 18 / 10\<rparr>,
             \<lparr>city = ''Goa'', energy = 580, price = 2\<rparr>,
             \<lparr>city = ''Kolhapur'', energy = 200, price = 18 / 10\<rparr>,
             \<lparr>city = ''Hyderabad'', energy = 200, price = 22 / 10\<rparr>])
        [''Mumbai'', ''Goa'', ''Kolhapur'', ''Hyderabad''])"
  by (rule conjI [OF run_Mumbai_Hyderabad_100
        stops_in_traversal_order [OF run_Mumbai_Hyderabad_100]])

end
